theory Spec2Isabelle
  imports Main "HOL-Library.Word" "HOL-Library.Log_Nat"
begin

section \<open>Strings of the host language\<close>

text \<open>
  A string of the source language is a finite sequence of 16-bit code units. A literal
  of the source text is written \<open>str ''...''\<close>; single code units are written as
  hexadecimal numerals, with the character they stand for in a comment.
\<close>

type_synonym code_unit = "16 word"
type_synonym jsstring = "code_unit list"

definition str :: "string \<Rightarrow> jsstring" where
  "str = map of_char"

text \<open>
  \<open>String.prototype.trim\<close> strips the code units of the productions WhiteSpace and
  LineTerminator at both ends: TAB, LF, VT, FF, CR, SP, NBSP, the other space
  separators U+1680, U+2000 .. U+200A, U+202F, U+205F, U+3000, the separators U+2028 and
  U+2029, and U+FEFF.
\<close>

definition isWhiteSpace :: "code_unit \<Rightarrow> bool" where
  "isWhiteSpace c \<longleftrightarrow>
     (let n = unat c
      in n = 0x9 \<or> n = 0xA \<or> n = 0xB \<or> n = 0xC \<or> n = 0xD \<or> n = 0x20 \<or> n = 0xA0 \<or>
         n = 0x1680 \<or> (0x2000 \<le> n \<and> n \<le> 0x200A) \<or> n = 0x2028 \<or> n = 0x2029 \<or>
         n = 0x202F \<or> n = 0x205F \<or> n = 0x3000 \<or> n = 0xFEFF)"

definition trimStart :: "jsstring \<Rightarrow> jsstring" where
  "trimStart s = dropWhile isWhiteSpace s"

definition trimEnd :: "jsstring \<Rightarrow> jsstring" where
  "trimEnd s = rev (dropWhile isWhiteSpace (rev s))"

definition trim :: "jsstring \<Rightarrow> jsstring" where
  "trim s = trimEnd (trimStart s)"

text \<open>
  \<open>s.split(',')\<close>: the pieces between the separators, in order; a string without the
  separator, the empty string included, gives one piece.
\<close>

fun split_at :: "code_unit \<Rightarrow> jsstring \<Rightarrow> jsstring list" where
  "split_at sep [] = [[]]"
| "split_at sep (c # cs) =
     (if c = sep then [] # split_at sep cs
      else case split_at sep cs of
             piece # pieces \<Rightarrow> (c # piece) # pieces
           | [] \<Rightarrow> [[c]])"

section \<open>Numbers returned by parseInt\<close>

text \<open>
  \<open>parseInt\<close> returns a Number: NaN, an infinity, or a double whose value is an integer.
  The signed zero \<open>-0\<close> is kept as \<open>Finite 0\<close>: no comparison of the program tells the
  two zeros apart.
\<close>

datatype number = NaN | Finite int | PosInfinity | NegInfinity

definition isNaN :: "number \<Rightarrow> bool" where
  "isNaN n \<longleftrightarrow> n = NaN"

fun greater_zero :: "number \<Rightarrow> bool" where
  \<comment> \<open>the comparison \<open>n > 0\<close>, false on NaN\<close>
  "greater_zero NaN = False"
| "greater_zero (Finite i) = (0 < i)"
| "greater_zero PosInfinity = True"
| "greater_zero NegInfinity = False"

text \<open>
  The Number value of a mathematical integer: the nearest double, ties to the even
  significand, and an infinity from \<open>2 ^ 1024\<close> on. Up to \<open>2 ^ 53\<close> every integer is
  its own double. \<open>floorlog 2 n\<close> is the number of binary digits of \<open>n\<close>.
\<close>

definition roundToDouble :: "nat \<Rightarrow> nat option" where
  "roundToDouble n =
     (if n < 2 ^ 53 then Some n
      else
        let shift = floorlog 2 n - 53;
            q = n div 2 ^ shift;
            r = n mod 2 ^ shift;
            q' = (if 2 ^ shift < 2 * r \<or> (2 * r = 2 ^ shift \<and> odd q) then q + 1 else q);
            m = q' * 2 ^ shift
        in if m < 2 ^ 1024 then Some m else None)"

definition toNumber :: "int \<Rightarrow> number" where
  "toNumber i =
     (case roundToDouble (nat \<bar>i\<bar>) of
        None \<Rightarrow> if i < 0 then NegInfinity else PosInfinity
      | Some m \<Rightarrow> Finite (if i < 0 then - int m else int m))"

definition isDigit :: "code_unit \<Rightarrow> bool" where
  "isDigit c \<longleftrightarrow> 0x30 \<le> unat c \<and> unat c \<le> 0x39"

definition digitValue :: "code_unit \<Rightarrow> nat" where
  "digitValue c = unat c - 48"

definition mathInt :: "jsstring \<Rightarrow> nat" where
  \<comment> \<open>the integer that a string of decimal digits denotes\<close>
  "mathInt Z = foldl (\<lambda>a c. 10 * a + digitValue c) 0 Z"

text \<open>
  \<open>parseInt(s, 10)\<close>: skip leading white space, read an optional sign, then the longest
  run of decimal digits; the rest of the string is ignored. No digit gives NaN. With the
  radix 10 given, no \<open>0x\<close> prefix is recognised.
\<close>

definition parseInt :: "jsstring \<Rightarrow> number" where
  "parseInt inputString =
     (let S = trimStart inputString;
          sign = (if S \<noteq> [] \<and> hd S = 0x2D then - 1 else 1 :: int);
          S' = (if S \<noteq> [] \<and> (hd S = 0x2B \<or> hd S = 0x2D) then tl S else S);
          Z = takeWhile isDigit S'
      in if Z = [] then NaN else toNumber (sign * int (mathInt Z)))"

section \<open>The sizes of the preview\<close>

text \<open>
  \<open>parsedSizes\<close> of \<open>App\<close>:
  \<open>outputSizes.split(',').map(s => parseInt(s.trim(), 10)).filter(n => !isNaN(n) && n > 0)\<close>.
\<close>

definition parsedSizes :: "jsstring \<Rightarrow> number list" where
  "parsedSizes outputSizes =
     filter (\<lambda>n. \<not> isNaN n \<and> greater_zero n)
       (map (\<lambda>s. parseInt (trim s)) (split_at 0x2C outputSizes))"


section \<open>The colourised preview\<close>

text \<open>
  The regular expressions of \<open>previewRenderSvg\<close> carry no flag, so each is searched once,
  from the left: the match is tried at every position in turn and the first position where
  it succeeds wins. A matcher below is the match of one expression at the start of a text;
  it returns the captured text and the text after the match.
\<close>

definition startsWith :: "jsstring \<Rightarrow> jsstring \<Rightarrow> bool" where
  "startsWith s p \<longleftrightarrow> take (length p) s = p"

text \<open>
  \<open>upTo q\<close> is what \<open>[^q]*?q\<close> and \<open>[^q]*q\<close> match: the run of code units other than
  \<open>q\<close> up to the first \<open>q\<close>, which ends the match. Lazy or greedy, the run cannot pass a
  \<open>q\<close>, so both stop at the first one; without a \<open>q\<close> there is no match.
\<close>

fun upTo :: "code_unit \<Rightarrow> jsstring \<Rightarrow> (jsstring \<times> jsstring) option" where
  "upTo q [] = None"
| "upTo q (c # cs) =
     (if c = q then Some ([], cs)
      else case upTo q cs of
             None \<Rightarrow> None
           | Some (run, rest) \<Rightarrow> Some (c # run, rest))"

text \<open>\<open>/<svg([^>]*?)>/\<close>, \<open>/fill="[^"]*"/\<close> and \<open>/stroke="[^"]*"/\<close> at the start of a text.\<close>

definition svgTagRegex :: "jsstring \<Rightarrow> (jsstring \<times> jsstring) option" where
  "svgTagRegex s = (if startsWith s (str ''<svg'') then upTo 0x3E (drop 4 s) else None)"

definition fillRegex :: "jsstring \<Rightarrow> (jsstring \<times> jsstring) option" where
  \<open>fillRegex s = (if startsWith s (str ''fill="'') then upTo 0x22 (drop 6 s) else None)\<close>

definition strokeRegex :: "jsstring \<Rightarrow> (jsstring \<times> jsstring) option" where
  \<open>strokeRegex s = (if startsWith s (str ''stroke="'') then upTo 0x22 (drop 8 s) else None)\<close>

text \<open>
  The search of \<open>match\<close> and \<open>replace\<close>: the text before the leftmost match, and what the
  matcher returned there.
\<close>

fun firstMatch :: "(jsstring \<Rightarrow> 'a option) \<Rightarrow> jsstring \<Rightarrow> (jsstring \<times> 'a) option" where
  "firstMatch re [] = (case re [] of None \<Rightarrow> None | Some m \<Rightarrow> Some ([], m))"
| "firstMatch re (c # cs) =
     (case re (c # cs) of
        Some m \<Rightarrow> Some ([], m)
      | None \<Rightarrow>
          (case firstMatch re cs of
             None \<Rightarrow> None
           | Some (pre, m) \<Rightarrow> Some (c # pre, m)))"

text \<open>\<open>s.replace(re, '')\<close>: the first match is cut out; without a match the text stays.\<close>

definition removeFirst :: "(jsstring \<Rightarrow> (jsstring \<times> jsstring) option) \<Rightarrow> jsstring \<Rightarrow> jsstring" where
  "removeFirst re s =
     (case firstMatch re s of
        None \<Rightarrow> s
      | Some (pre, _, post) \<Rightarrow> pre @ post)"

text \<open>
  \<open>s.replace(re, newSvgTag)\<close> with a replacement string expands the patterns of the
  replacement (the operation GetSubstitution of the language): \<open>$$\<close> is a dollar sign,
  \<open>$&\<close> the matched text, \<open>$`\<close> the text before the match, \<open>$'\<close> the text after it,
  and \<open>$1\<close> or \<open>$01\<close> the text of the one capture group. A two-digit index above the number
  of groups (\<open>$10\<close> .. \<open>$19\<close>) is read as \<open>$1\<close> followed by a digit. Every other code unit,
  and a dollar sign in front of anything else, stands for itself.
\<close>

fun GetSubstitution ::
  "jsstring \<Rightarrow> jsstring \<Rightarrow> jsstring \<Rightarrow> jsstring \<Rightarrow> jsstring \<Rightarrow> jsstring" where
  "GetSubstitution matched pre post capture [] = []"
| "GetSubstitution matched pre post capture [c] = [c]"
| "GetSubstitution matched pre post capture (c # d # t) =
     (if c \<noteq> 0x24 then c # GetSubstitution matched pre post capture (d # t)
      else if d = 0x24 then 0x24 # GetSubstitution matched pre post capture t
      else if d = 0x60 then pre @ GetSubstitution matched pre post capture t
      else if d = 0x26 then matched @ GetSubstitution matched pre post capture t
      else if d = 0x27 then post @ GetSubstitution matched pre post capture t
      else if d = 0x31 then capture @ GetSubstitution matched pre post capture t
      else case t of
             e # t' \<Rightarrow>
               if d = 0x30 \<and> e = 0x31
               then capture @ GetSubstitution matched pre post capture t'
               else c # GetSubstitution matched pre post capture (d # t)
           | [] \<Rightarrow> c # GetSubstitution matched pre post capture (d # t))"

text \<open>
  \<open>previewRenderSvg\<close> of \<open>App\<close>, as a function of the base text and the preview colour:
  \<^verbatim>\<open>
  if (!baseOptimizedSvg) return '';
  const match = baseOptimizedSvg.match(svgTagRegex);
  if (!match) return baseOptimizedSvg;
  let attributes = match[1];
  attributes = attributes.replace(/fill="[^"]*"/, '').replace(/stroke="[^"]*"/, '');
  const newSvgTag = `<svg${attributes} fill="${options.previewColor}">`;
  return baseOptimizedSvg.replace(svgTagRegex, newSvgTag);
  \<close>
\<close>

definition previewRenderSvg :: "jsstring \<Rightarrow> jsstring \<Rightarrow> jsstring" where
  \<open>previewRenderSvg baseOptimizedSvg previewColor =
     (if baseOptimizedSvg = [] then []
      else case firstMatch svgTagRegex baseOptimizedSvg of
        None \<Rightarrow> baseOptimizedSvg
      | Some (pre, group1, post) \<Rightarrow>
          let attributes = removeFirst strokeRegex (removeFirst fillRegex group1);
              newSvgTag = str ''<svg'' @ attributes @ str '' fill="'' @ previewColor @ str ''">''
          in pre
             @ GetSubstitution (str ''<svg'' @ group1 @ [0x3E]) pre post group1 newSvgTag
             @ post)\<close>

text \<open>
  The specification's words, for comparison with the search of the code: a text has a
  recognizable root opening tag when somewhere in it \<open><svg\<close> is followed, at any distance,
  by \<open>>\<close>.
\<close>

fun hasRootOpeningTag :: "jsstring \<Rightarrow> bool" where
  "hasRootOpeningTag [] = False"
| "hasRootOpeningTag (c # cs) =
     ((startsWith (c # cs) (str ''<svg'') \<and> 0x3E \<in> set (drop 4 (c # cs))) \<or> hasRootOpeningTag cs)"

section \<open>The data URL of the preview\<close>

text \<open>
  What the host functions of this development can throw. An exception is a value: a
  function that can throw returns \<open>exception + 'a\<close>, with \<open>Inl\<close> for the throw.
\<close>

datatype exception = URIError | InvalidCharacterError | HostError

text \<open>
  \<open>encodeURIComponent\<close> leaves the letters, the digits and \<open>- _ . ! ~ * ' ( )\<close> as they
  are. Every other code point is written as the octets of its UTF-8 encoding, each octet as
  \<open>%\<close> and two upper-case hexadecimal digits. A code point is one code unit, or a leading
  surrogate followed by a trailing one; a surrogate without its partner throws URIError.
\<close>

definition uriUnescaped :: "code_unit \<Rightarrow> bool" where
  "uriUnescaped c \<longleftrightarrow>
     (let n = unat c
      in (0x41 \<le> n \<and> n \<le> 0x5A) \<or> (0x61 \<le> n \<and> n \<le> 0x7A) \<or> (0x30 \<le> n \<and> n \<le> 0x39) \<or>
         n = 0x2D \<or> n = 0x5F \<or> n = 0x2E \<or> n = 0x21 \<or> n = 0x7E \<or> n = 0x2A \<or>
         n = 0x27 \<or> n = 0x28 \<or> n = 0x29)"

definition isLeadingSurrogate :: "code_unit \<Rightarrow> bool" where
  "isLeadingSurrogate c \<longleftrightarrow> 0xD800 \<le> unat c \<and> unat c \<le> 0xDBFF"

definition isTrailingSurrogate :: "code_unit \<Rightarrow> bool" where
  "isTrailingSurrogate c \<longleftrightarrow> 0xDC00 \<le> unat c \<and> unat c \<le> 0xDFFF"

definition codePointOfPair :: "code_unit \<Rightarrow> code_unit \<Rightarrow> nat" where
  "codePointOfPair lead trail = (unat lead - 0xD800) * 0x400 + (unat trail - 0xDC00) + 0x10000"

definition utf8Octets :: "nat \<Rightarrow> nat list" where
  "utf8Octets cp =
     (if cp < 0x80 then [cp]
      else if cp < 0x800 then [0xC0 + cp div 0x40, 0x80 + cp mod 0x40]
      else if cp < 0x10000 then
        [0xE0 + cp div 0x1000, 0x80 + cp div 0x40 mod 0x40, 0x80 + cp mod 0x40]
      else
        [0xF0 + cp div 0x40000, 0x80 + cp div 0x1000 mod 0x40, 0x80 + cp div 0x40 mod 0x40,
         0x80 + cp mod 0x40])"

definition hexChar :: "nat \<Rightarrow> code_unit" where
  "hexChar d = of_nat (if d < 10 then 0x30 + d else 0x41 + (d - 10))"

definition percentEncode :: "nat list \<Rightarrow> jsstring" where
  "percentEncode octets = concat (map (\<lambda>b. [0x25, hexChar (b div 16), hexChar (b mod 16)]) octets)"

definition followedBy :: "jsstring \<Rightarrow> exception + jsstring \<Rightarrow> exception + jsstring" where
  "followedBy s r = (case r of Inl e \<Rightarrow> Inl e | Inr t \<Rightarrow> Inr (s @ t))"

fun encodeURIComponent :: "jsstring \<Rightarrow> exception + jsstring" where
  "encodeURIComponent [] = Inr []"
| "encodeURIComponent [c] =
     (if uriUnescaped c then Inr [c]
      else if isLeadingSurrogate c \<or> isTrailingSurrogate c then Inl URIError
      else Inr (percentEncode (utf8Octets (unat c))))"
| "encodeURIComponent (c # d # cs) =
     (if uriUnescaped c then followedBy [c] (encodeURIComponent (d # cs))
      else if isTrailingSurrogate c then Inl URIError
      else if isLeadingSurrogate c then
        (if isTrailingSurrogate d
         then followedBy (percentEncode (utf8Octets (codePointOfPair c d))) (encodeURIComponent cs)
         else Inl URIError)
      else followedBy (percentEncode (utf8Octets (unat c))) (encodeURIComponent (d # cs)))"

text \<open>
  \<open>unescape\<close> replaces \<open>%uXXXX\<close> and \<open>%XX\<close>, with hexadecimal digits, by the code unit
  of that value, and keeps everything else. The four-digit form is tried when at least five
  code units follow the \<open>%\<close> and the first is \<open>u\<close>, the two-digit form otherwise when at
  least two follow.
\<close>

definition hexValue :: "code_unit \<Rightarrow> nat option" where
  "hexValue c =
     (let n = unat c
      in if 0x30 \<le> n \<and> n \<le> 0x39 then Some (n - 0x30)
         else if 0x41 \<le> n \<and> n \<le> 0x46 then Some (n - 0x41 + 10)
         else if 0x61 \<le> n \<and> n \<le> 0x66 then Some (n - 0x61 + 10)
         else None)"

fun parseHex :: "nat \<Rightarrow> jsstring \<Rightarrow> nat option" where
  "parseHex acc [] = Some acc"
| "parseHex acc (c # cs) =
     (case hexValue c of None \<Rightarrow> None | Some d \<Rightarrow> parseHex (16 * acc + d) cs)"

function unescape :: "jsstring \<Rightarrow> jsstring" where
  "unescape [] = []"
| "unescape (c # cs) =
     (if c = 0x25 then
        (if 5 \<le> length cs \<and> hd cs = 0x75 then
           (case parseHex 0 (take 4 (tl cs)) of
              Some n \<Rightarrow> of_nat n # unescape (drop 5 cs)
            | None \<Rightarrow> c # unescape cs)
         else if 2 \<le> length cs then
           (case parseHex 0 (take 2 cs) of
              Some n \<Rightarrow> of_nat n # unescape (drop 2 cs)
            | None \<Rightarrow> c # unescape cs)
         else c # unescape cs)
      else c # unescape cs)"
  by pat_completeness auto
termination
  by (relation "measure length") auto

text \<open>
  \<open>btoa\<close> throws InvalidCharacterError on a code unit above \<open>0xFF\<close>, and otherwise
  encodes the code units as octets in Base64, with padding.
\<close>

definition base64Char :: "nat \<Rightarrow> code_unit" where
  "base64Char v =
     of_nat (if v < 26 then 0x41 + v
             else if v < 52 then 0x61 + (v - 26)
             else if v < 62 then 0x30 + (v - 52)
             else if v = 62 then 0x2B else 0x2F)"

fun base64Encode :: "nat list \<Rightarrow> jsstring" where
  "base64Encode [] = []"
| "base64Encode [a] = [base64Char (a div 4), base64Char (a mod 4 * 16), 0x3D, 0x3D]"
| "base64Encode [a, b] =
     [base64Char (a div 4), base64Char (a mod 4 * 16 + b div 16), base64Char (b mod 16 * 4), 0x3D]"
| "base64Encode (a # b # c # rest) =
     [base64Char (a div 4), base64Char (a mod 4 * 16 + b div 16),
      base64Char (b mod 16 * 4 + c div 64), base64Char (c mod 64)] @ base64Encode rest"

definition btoa :: "jsstring \<Rightarrow> exception + jsstring" where
  "btoa data =
     (if list_ex (\<lambda>c. 0xFF < unat c) data then Inl InvalidCharacterError
      else Inr (base64Encode (map unat data)))"

text \<open>
  \<open>svgPreviewUrl\<close> of \<open>App\<close>, as a function of the colourised text:
  \<^verbatim>\<open>
  if (!previewRenderSvg) return '';
  try {
      const base64 = btoa(unescape(encodeURIComponent(previewRenderSvg)));
      return `data:image/svg+xml;base64,${base64}`;
  } catch (e) {
      console.error("Error creating SVG data URL", e);
      return '';
  }
  \<close>
  The function returns a string on every path: a throw inside \<open>try\<close> is caught. The
  message on the console is not part of the value.
\<close>

definition svgPreviewUrl :: "jsstring \<Rightarrow> jsstring" where
  "svgPreviewUrl previewRenderSvg_text =
     (if previewRenderSvg_text = [] then []
      else case encodeURIComponent previewRenderSvg_text of
        Inl e \<Rightarrow> []
      | Inr encoded \<Rightarrow>
          (case btoa (unescape encoded) of
             Inl e \<Rightarrow> []
           | Inr base64 \<Rightarrow> str ''data:image/svg+xml;base64,'' @ base64))"

text \<open>The encoding fails when one of the calls inside \<open>try\<close> throws.\<close>

definition encodingFails :: "jsstring \<Rightarrow> bool" where
  "encodingFails text =
     (case encodeURIComponent text of
        Inl e \<Rightarrow> True
      | Inr encoded \<Rightarrow> (case btoa (unescape encoded) of Inl e \<Rightarrow> True | Inr base64 \<Rightarrow> False))"

text \<open>
  For comparison, in the specification's terms. A string is well formed when it has no
  surrogate without its partner (\<open>String.prototype.isWellFormed\<close>). The payload of a data
  URL is decoded as Base64 (strict, with padding) and the octets as UTF-8 (shortest form
  only, no surrogate code points, nothing above U+10FFFF) into code units.
\<close>

fun isWellFormed :: "jsstring \<Rightarrow> bool" where
  "isWellFormed [] = True"
| "isWellFormed [c] = (\<not> isLeadingSurrogate c \<and> \<not> isTrailingSurrogate c)"
| "isWellFormed (c # d # cs) =
     (if isLeadingSurrogate c then isTrailingSurrogate d \<and> isWellFormed cs
      else \<not> isTrailingSurrogate c \<and> isWellFormed (d # cs))"

definition base64Value :: "code_unit \<Rightarrow> nat option" where
  "base64Value c =
     (let n = unat c
      in if 0x41 \<le> n \<and> n \<le> 0x5A then Some (n - 0x41)
         else if 0x61 \<le> n \<and> n \<le> 0x7A then Some (n - 0x61 + 26)
         else if 0x30 \<le> n \<and> n \<le> 0x39 then Some (n - 0x30 + 52)
         else if n = 0x2B then Some 62
         else if n = 0x2F then Some 63
         else None)"

fun base64Decode :: "jsstring \<Rightarrow> nat list option" where
  "base64Decode [] = Some []"
| "base64Decode (a # b # c # d # rest) =
     (case (base64Value a, base64Value b) of
        (Some x, Some y) \<Rightarrow>
          if c = 0x3D then
            (if d = 0x3D \<and> rest = [] \<and> y mod 16 = 0 then Some [x * 4 + y div 16] else None)
          else
            (case base64Value c of
               None \<Rightarrow> None
             | Some z \<Rightarrow>
                 if d = 0x3D then
                   (if rest = [] \<and> z mod 4 = 0
                    then Some [x * 4 + y div 16, y mod 16 * 16 + z div 4] else None)
                 else
                   (case base64Value d of
                      None \<Rightarrow> None
                    | Some w \<Rightarrow>
                        (case base64Decode rest of
                           None \<Rightarrow> None
                         | Some bs \<Rightarrow>
                             Some ([x * 4 + y div 16, y mod 16 * 16 + z div 4, z mod 4 * 64 + w] @ bs))))
      | _ \<Rightarrow> None)"
| "base64Decode _ = None"

definition isContinuation :: "nat \<Rightarrow> bool" where
  "isContinuation b \<longleftrightarrow> 0x80 \<le> b \<and> b < 0xC0"

definition codeUnitsOf :: "nat \<Rightarrow> jsstring" where
  "codeUnitsOf cp =
     (if cp < 0x10000 then [of_nat cp]
      else [of_nat (0xD800 + (cp - 0x10000) div 0x400), of_nat (0xDC00 + (cp - 0x10000) mod 0x400)])"

fun utf8Decode :: "nat list \<Rightarrow> jsstring option" where
  "utf8Decode [] = Some []"
| "utf8Decode (b # bs) =
     (if b < 0x80 then map_option ((@) (codeUnitsOf b)) (utf8Decode bs)
      else if b < 0xC2 then None
      else if b < 0xE0 then
        (case bs of
           b1 # r \<Rightarrow>
             if isContinuation b1
             then map_option ((@) (codeUnitsOf ((b - 0xC0) * 0x40 + (b1 - 0x80)))) (utf8Decode r)
             else None
         | _ \<Rightarrow> None)
      else if b < 0xF0 then
        (case bs of
           b1 # b2 # r \<Rightarrow>
             let cp = (b - 0xE0) * 0x1000 + (b1 - 0x80) * 0x40 + (b2 - 0x80)
             in if isContinuation b1 \<and> isContinuation b2 \<and> 0x800 \<le> cp \<and> \<not> (0xD800 \<le> cp \<and> cp < 0xE000)
                then map_option ((@) (codeUnitsOf cp)) (utf8Decode r)
                else None
         | _ \<Rightarrow> None)
      else if b < 0xF5 then
        (case bs of
           b1 # b2 # b3 # r \<Rightarrow>
             let cp = (b - 0xF0) * 0x40000 + (b1 - 0x80) * 0x1000 + (b2 - 0x80) * 0x40 + (b3 - 0x80)
             in if isContinuation b1 \<and> isContinuation b2 \<and> isContinuation b3 \<and>
                   0x10000 \<le> cp \<and> cp < 0x110000
                then map_option ((@) (codeUnitsOf cp)) (utf8Decode r)
                else None
         | _ \<Rightarrow> None)
      else None)"

definition decodePayload :: "jsstring \<Rightarrow> jsstring option" where
  "decodePayload payload =
     (case base64Decode payload of None \<Rightarrow> None | Some octets \<Rightarrow> utf8Decode octets)"

text \<open>
  \<open>binaryString s b\<close>: the code units of \<open>b\<close> are octets, and they are the UTF-8 encoding
  of \<open>s\<close>.
\<close>

definition binaryString :: "jsstring \<Rightarrow> jsstring \<Rightarrow> bool" where
  "binaryString text b \<longleftrightarrow> list_all (\<lambda>c. unat c < 256) b \<and> utf8Decode (map unat b) = Some text"

section \<open>Size parsing: lemmas\<close>

lemma split_at_nonempty: "split_at sep s \<noteq> []"
  by (induction s) (auto split: list.splits)

lemma split_at_append: "split_at sep (a @ sep # b) = split_at sep a @ split_at sep b"
proof (induction a)
  case Nil
  show ?case by simp
next
  case (Cons c a)
  have ne: "split_at sep a \<noteq> []" by (rule split_at_nonempty)
  then obtain t ts where tts: "split_at sep a = t # ts" by (cases "split_at sep a") auto
  show ?case using Cons tts by (cases "c = sep") auto
qed

lemma split_at_no_sep: "sep \<notin> set t \<Longrightarrow> split_at sep t = [t]"
  by (induction t) (auto split: list.splits)

lemma isDigit_not_white: "isDigit c \<Longrightarrow> \<not> isWhiteSpace c"
  unfolding isDigit_def isWhiteSpace_def by (auto simp: Let_def)

lemma isDigit_not_sign: "isDigit c \<Longrightarrow> c \<noteq> 0x2B \<and> c \<noteq> 0x2D \<and> c \<noteq> 0x2C"
  unfolding isDigit_def by auto

lemma isWhiteSpace_not_comma: "isWhiteSpace c \<Longrightarrow> c \<noteq> 0x2C"
  unfolding isWhiteSpace_def by (auto simp: Let_def)

lemma trimEnd_append:
  assumes "xs \<noteq> []" "\<not> isWhiteSpace (last xs)"
  shows "trimEnd (xs @ ys) = xs @ trimEnd ys"
proof -
  obtain zs z where xs: "xs = zs @ [z]" using assms(1) by (cases xs rule: rev_cases) auto
  have nz: "\<not> isWhiteSpace z" using assms(2) xs by simp
  have "dropWhile isWhiteSpace (rev ys @ z # rev zs) = dropWhile isWhiteSpace (rev ys) @ z # rev zs"
    using nz by (rule dropWhile_append3)
  then show ?thesis by (simp add: trimEnd_def xs)
qed

lemma trimEnd_hd: "trimEnd ys = [] \<or> hd (trimEnd ys) = hd ys"
proof (induction ys)
  case Nil show ?case by (simp add: trimEnd_def)
next
  case (Cons y ys)
  show ?case
  proof (cases "\<forall>c\<in>set (rev ys). isWhiteSpace c")
    case True
    then have "dropWhile isWhiteSpace (rev ys @ [y]) = dropWhile isWhiteSpace [y]"
      by (intro dropWhile_append2) auto
    then show ?thesis by (simp add: trimEnd_def)
  next
    case False
    then obtain x where "x \<in> set (rev ys)" "\<not> isWhiteSpace x" by auto
    then have "dropWhile isWhiteSpace (rev ys @ [y]) = dropWhile isWhiteSpace (rev ys) @ [y]"
      by (rule dropWhile_append1)
    then show ?thesis by (simp add: trimEnd_def)
  qed
qed

lemma trimEnd_set: "set (trimEnd ys) \<subseteq> set ys"
  unfolding trimEnd_def using set_dropWhileD by fastforce

lemma trim_leading_digits:
  assumes "ds \<noteq> []" "\<forall>c\<in>set ds. isDigit c" "\<forall>c\<in>set ws. isWhiteSpace c"
  shows "trim (ws @ ds @ rest) = ds @ trimEnd rest"
proof -
  have hd: "\<not> isWhiteSpace (hd ds)" "\<not> isWhiteSpace (last ds)"
    using assms(1,2) isDigit_not_white by auto
  have "dropWhile isWhiteSpace (ws @ ds @ rest) = dropWhile isWhiteSpace (ds @ rest)"
    using assms(3) by (intro dropWhile_append2) auto
  also have "\<dots> = ds @ rest" using hd(1) assms(1) by (cases ds) auto
  finally have "trimStart (ws @ ds @ rest) = ds @ rest" by (simp add: trimStart_def)
  then show ?thesis using trimEnd_append [OF assms(1) hd(2)] by (simp add: trim_def)
qed

lemma parseInt_leading_digits:
  assumes "ds \<noteq> []" "\<forall>c\<in>set ds. isDigit c" "r = [] \<or> \<not> isDigit (hd r)"
  shows "parseInt (ds @ r) = toNumber (int (mathInt ds))"
proof -
  obtain d ds' where ds: "ds = d # ds'" using assms(1) by (cases ds) auto
  have d: "isDigit d" using assms(2) ds by simp
  have S: "trimStart (ds @ r) = ds @ r"
    using isDigit_not_white [OF d] by (simp add: trimStart_def ds)
  have Z: "takeWhile isDigit (ds @ r) = ds"
  proof (cases r)
    case Nil then show ?thesis using assms(2) by simp
  next
    case (Cons x xs)
    then have "\<not> isDigit x" using assms(3) by simp
    then show ?thesis using assms(2) Cons by (simp add: takeWhile_tail)
  qed
  show ?thesis
    unfolding parseInt_def S using isDigit_not_sign [OF d] Z assms(1)
    by (simp add: ds Let_def)
qed

lemma floorlog_shift_le:
  assumes "2 ^ 53 \<le> (n::nat)"
  shows "2 ^ (floorlog 2 n - 53) \<le> n"
proof -
  have pos: "0 < n" using assms by (simp add: order.strict_trans2 [of 0 "2^53"])
  have "(2::nat) ^ (floorlog 2 n - 1) \<le> n"
    using floorlog_bounds [of n 2] pos by simp
  moreover have "(2::nat) ^ (floorlog 2 n - 53) \<le> 2 ^ (floorlog 2 n - 1)"
    by (rule power_increasing) auto
  ultimately show ?thesis by linarith
qed

lemma roundToDouble_pos:
  assumes "roundToDouble n = Some m" "0 < n"
  shows "0 < m"
proof (cases "n < 2 ^ 53")
  case True
  then show ?thesis using assms by (simp add: roundToDouble_def)
next
  case False
  define sh where "sh = floorlog 2 n - 53"
  have le: "2 ^ sh \<le> n" unfolding sh_def using False by (intro floorlog_shift_le) simp
  have q: "0 < n div 2 ^ sh" using le by (simp add: div_greater_zero_iff)
  show ?thesis using assms False q
    by (auto simp: roundToDouble_def Let_def sh_def [symmetric] split: if_splits)
qed

lemma roundToDouble_zero: "roundToDouble 0 = Some 0"
  by (simp add: roundToDouble_def)

lemma greater_zero_toNumber: "greater_zero (toNumber i) \<longleftrightarrow> 0 < i"
proof (cases "roundToDouble (nat \<bar>i\<bar>)")
  case None
  then show ?thesis 
    by (cases "i = 0") (auto simp: toNumber_def roundToDouble_zero)
next
  case (Some m)
  show ?thesis
  proof (cases "i = 0")
    case True
    then show ?thesis using Some by (simp add: toNumber_def roundToDouble_zero)
  next
    case False
    then have "0 < m" using roundToDouble_pos [OF Some] by simp
    then show ?thesis using Some False by (auto simp: toNumber_def)
  qed
qed

lemma toNumber_exact: "\<bar>i\<bar> < 2 ^ 53 \<Longrightarrow> toNumber i = Finite i"
  by (auto simp: toNumber_def roundToDouble_def nat_less_iff)

lemma toNumber_not_NaN: "\<not> isNaN (toNumber i)"
  by (simp add: toNumber_def isNaN_def split: option.splits)

lemma parseInt_trim_token:
  assumes "ds \<noteq> []" "\<forall>c\<in>set ds. isDigit c" "\<forall>c\<in>set ws. isWhiteSpace c"
    and "rest = [] \<or> \<not> isDigit (hd rest)"
  shows "parseInt (trim (ws @ ds @ rest)) = toNumber (int (mathInt ds))"
proof -
  have "trimEnd rest = [] \<or> \<not> isDigit (hd (trimEnd rest))"
    using trimEnd_hd [of rest] assms(4) by (auto simp: trimEnd_def)
  then have "parseInt (ds @ trimEnd rest) = toNumber (int (mathInt ds))"
    using assms(1,2) by (intro parseInt_leading_digits)
  then show ?thesis using trim_leading_digits [OF assms(1,2,3)] by simp
qed

lemma parsedSizes_append:
  "parsedSizes (a @ 0x2C # b) = parsedSizes a @ parsedSizes b"
  by (simp add: parsedSizes_def split_at_append)

lemma parsedSizes_token:
  assumes "0x2C \<notin> set t"
  shows "parsedSizes t = (if greater_zero (parseInt (trim t)) then [parseInt (trim t)] else [])"
proof -
  have "greater_zero n \<Longrightarrow> \<not> isNaN n" for n by (cases n) (auto simp: isNaN_def)
  then show ?thesis using assms by (auto simp: parsedSizes_def split_at_no_sep)
qed

lemma parsedSizes_positive:
  assumes "n \<in> set (parsedSizes s)"
  shows "n = PosInfinity \<or> (\<exists>i. 0 < i \<and> n = Finite i)"
proof -
  have "greater_zero n" using assms by (simp add: parsedSizes_def)
  then show ?thesis by (cases n) auto
qed

lemmas size_eval = parsedSizes_def str_def parseInt_def trim_def trimStart_def trimEnd_def
  isWhiteSpace_def isDigit_def mathInt_def digitValue_def toNumber_exact isNaN_def

section \<open>Size parsing: the claims\<close>

text \<open>
  Claim C8. Size parsing cuts the text at every comma and keeps the order of the pieces
  (first conjunct: the sizes of \<open>a,b\<close> are those of \<open>a\<close> followed by those of \<open>b\<close>, so
  duplicates stay); a piece without a comma is trimmed and parsed, and kept exactly when the
  number is greater than zero (second conjunct); a piece made of decimal digits with white
  space around them parses to the number these digits denote (third conjunct); every size
  kept is strictly positive (fourth conjunct); a text whose pieces are all invalid gives the
  empty sequence (fifth conjunct); and the three examples of the specification hold.
\<close>

theorem parsedSizes_split_trim_parse_filter:
  "parsedSizes (a @ 0x2C # b) = parsedSizes a @ parsedSizes b
   \<and> (0x2C \<notin> set t \<longrightarrow>
        parsedSizes t = (if greater_zero (parseInt (trim t)) then [parseInt (trim t)] else []))
   \<and> (ds \<noteq> [] \<and> (\<forall>c\<in>set ds. isDigit c) \<and> (\<forall>c\<in>set ws. isWhiteSpace c) \<and>
        (\<forall>c\<in>set ws'. isWhiteSpace c) \<longrightarrow>
        parseInt (trim (ws @ ds @ ws')) = toNumber (int (mathInt ds)))
   \<and> (\<forall>n\<in>set (parsedSizes s). n = PosInfinity \<or> (\<exists>i. 0 < i \<and> n = Finite i))
   \<and> ((\<forall>t\<in>set (split_at 0x2C u). \<not> greater_zero (parseInt (trim t))) \<longrightarrow> parsedSizes u = [])
   \<and> parsedSizes (str ''16, 24, 32'') = [Finite 16, Finite 24, Finite 32]
   \<and> parsedSizes (str ''0, -5, abc, 10'') = [Finite 10]
   \<and> parsedSizes (str '''') = []"
proof (intro conjI impI)
  show "parsedSizes (a @ 0x2C # b) = parsedSizes a @ parsedSizes b"
    by (rule parsedSizes_append)
  show "parsedSizes t = (if greater_zero (parseInt (trim t)) then [parseInt (trim t)] else [])"
    if "0x2C \<notin> set t" using that by (rule parsedSizes_token)
  show "parseInt (trim (ws @ ds @ ws')) = toNumber (int (mathInt ds))"
    if h: "ds \<noteq> [] \<and> (\<forall>c\<in>set ds. isDigit c) \<and> (\<forall>c\<in>set ws. isWhiteSpace c) \<and>
        (\<forall>c\<in>set ws'. isWhiteSpace c)"
  proof -
    have "ws' = [] \<or> \<not> isDigit (hd ws')"
      using h isDigit_not_white by (cases ws') auto
    then show ?thesis using h by (intro parseInt_trim_token) auto
  qed
  show "\<forall>n\<in>set (parsedSizes s). n = PosInfinity \<or> (\<exists>i. 0 < i \<and> n = Finite i)"
    using parsedSizes_positive by blast
  show "parsedSizes u = []"
    if "\<forall>t\<in>set (split_at 0x2C u). \<not> greater_zero (parseInt (trim t))"
    using that by (auto simp: parsedSizes_def filter_empty_conv)
  show "parsedSizes (str ''16, 24, 32'') = [Finite 16, Finite 24, Finite 32]"
    by (simp add: size_eval)
  show "parsedSizes (str ''0, -5, abc, 10'') = [Finite 10]"
    by (simp add: size_eval)
  show "parsedSizes (str '''') = []"
    by (simp add: size_eval)
qed

theorem parsedSizes_split_trim_parse_filter_witness:
  "0x2C \<notin> set (str '' 24 '')
   \<and> parsedSizes (str '' 24 '') = [Finite 24]
   \<and> str ''24'' \<noteq> [] \<and> list_all isDigit (str ''24'') \<and> list_all isWhiteSpace (str '' '')
   \<and> parseInt (trim (str '' '' @ str ''24'' @ str '' '')) = Finite 24
   \<and> Finite 7 \<in> set (parsedSizes (str ''7,7''))
   \<and> list_all (\<lambda>t. \<not> greater_zero (parseInt (trim t))) (split_at 0x2C (str ''0, abc''))
   \<and> parsedSizes (str ''0, abc'') = []"
  using parsedSizes_split_trim_parse_filter
    [of "str ''16''" "str '' 24''" "str '' 24 ''" "str ''24''" "str '' ''" "str '' ''"
        "str ''7,7''" "str ''0, abc''"]
  by (simp add: size_eval)

text \<open>
  Claim C10. A piece that begins, after white space, with a positive decimal integer
  followed by anything that is not a digit (\<open>16px\<close>, \<open>3.9\<close>) is not discarded: the parsed
  sequence contains the Number of the leading integer, wherever the piece stands in the
  comma-separated text. Up to \<open>2 ^ 53\<close> that Number is the integer itself.
\<close>

theorem parsedSizes_keeps_leading_integer:
  assumes "ds \<noteq> []" and "\<forall>c\<in>set ds. isDigit c" and "0 < mathInt ds"
    and "rest = [] \<or> \<not> isDigit (hd rest)" and "0x2C \<notin> set rest"
    and "\<forall>c\<in>set ws. isWhiteSpace c"
    and "before = [] \<or> last before = 0x2C" and "after = [] \<or> hd after = 0x2C"
  shows "parsedSizes (ws @ ds @ rest) = [toNumber (int (mathInt ds))]
    \<and> toNumber (int (mathInt ds)) \<in> set (parsedSizes (before @ ws @ ds @ rest @ after))
    \<and> (mathInt ds < 2 ^ 53 \<longrightarrow> toNumber (int (mathInt ds)) = Finite (int (mathInt ds)))"
proof -
  let ?t = "ws @ ds @ rest"
  let ?v = "toNumber (int (mathInt ds))"
  have nocomma: "0x2C \<notin> set ?t"
    using assms(2,5,6) isDigit_not_sign isWhiteSpace_not_comma by auto
  have val: "parseInt (trim ?t) = ?v"
    using assms(1,2,6,4) by (rule parseInt_trim_token)
  have pos: "greater_zero ?v" using assms(3) by (simp add: greater_zero_toNumber)
  have tok: "parsedSizes ?t = [?v]"
    using parsedSizes_token [OF nocomma] val pos by simp
  have mid: "?v \<in> set (parsedSizes (x @ ?t @ y))"
    if "x = [] \<or> last x = 0x2C" "y = [] \<or> hd y = 0x2C" for x y
  proof -
    have right: "?v \<in> set (parsedSizes (?t @ y))"
    proof (cases y)
      case Nil then show ?thesis using tok by simp
    next
      case (Cons c y')
      then have "?t @ y = ?t @ 0x2C # y'" using that(2) by simp
      then show ?thesis using parsedSizes_append [of ?t y'] tok by simp
    qed
    show ?thesis
    proof (cases x rule: rev_cases)
      case Nil then show ?thesis using right by simp
    next
      case (snoc x' c)
      then have "x @ ?t @ y = x' @ 0x2C # (?t @ y)" using that(1) by simp
      then show ?thesis using parsedSizes_append [of x' "?t @ y"] right by simp
    qed
  qed
  have "?v \<in> set (parsedSizes (before @ ?t @ after))"
    using assms(7,8) by (rule mid)
  moreover have "mathInt ds < 2 ^ 53 \<longrightarrow> ?v = Finite (int (mathInt ds))"
  proof
    assume "mathInt ds < 2 ^ 53"
    then have "\<bar>int (mathInt ds)\<bar> < 2 ^ 53" by (simp add: of_nat_less_numeral_power_cancel_iff)
    then show "?v = Finite (int (mathInt ds))" by (rule toNumber_exact)
  qed
  ultimately show ?thesis using tok by simp
qed

theorem parsedSizes_keeps_leading_integer_witness:
  "parsedSizes (str ''16px'') = [Finite 16]
   \<and> parsedSizes (str ''3.9'') = [Finite 3]
   \<and> Finite 16 \<in> set (parsedSizes (str ''8, 16px,24''))"
proof -
  have a: "parsedSizes ([] @ str ''16'' @ str ''px'') = [toNumber (int (mathInt (str ''16'')))]"
    using parsedSizes_keeps_leading_integer [of "str ''16''" "str ''px''" "[]" "[]" "[]"]
    by (simp add: str_def isDigit_def mathInt_def digitValue_def)
  have b: "parsedSizes ([] @ str ''3'' @ str ''.9'') = [toNumber (int (mathInt (str ''3'')))]"
    using parsedSizes_keeps_leading_integer [of "str ''3''" "str ''.9''" "[]" "[]" "[]"]
    by (simp add: str_def isDigit_def mathInt_def digitValue_def)
  have c: "Finite 16 \<in> set (parsedSizes (str ''8, 16px,24''))"
    using parsedSizes_keeps_leading_integer
      [of "str ''16''" "str ''px''" "str '' ''" "str ''8,''" "str '',24''"]
    by (simp add: str_def isDigit_def isWhiteSpace_def mathInt_def digitValue_def
        toNumber_def roundToDouble_def)
  have v: "toNumber (int (mathInt (str ''16''))) = Finite 16"
     "toNumber (int (mathInt (str ''3''))) = Finite 3"
    by (simp_all add: str_def mathInt_def digitValue_def toNumber_def roundToDouble_def)
  show ?thesis using a b c v by (simp add: str_def)
qed

section \<open>The colourised preview: lemmas and claims\<close>

lemmas preview_eval = previewRenderSvg_def svgTagRegex_def fillRegex_def strokeRegex_def
  startsWith_def removeFirst_def str_def

lemma upTo_Some: "upTo q s = Some (a, r) \<Longrightarrow> s = a @ q # r \<and> q \<notin> set a"
  by (induction s arbitrary: a r) (auto split: if_splits option.splits)

lemma upTo_None: "upTo q s = None \<longleftrightarrow> q \<notin> set s"
  by (induction s) (auto split: option.splits)

lemma upTo_append: "q \<notin> set a \<Longrightarrow> upTo q (a @ q # r) = Some (a, r)"
  by (induction a) auto

lemma firstMatch_Some:
  "firstMatch re s = Some (pre, m) \<Longrightarrow> \<exists>suffix. s = pre @ suffix \<and> re suffix = Some m"
  by (induction s arbitrary: pre) (auto split: option.splits)

lemma firstMatch_None:
  "firstMatch re s = None \<longleftrightarrow> (\<forall>pre suffix. s = pre @ suffix \<longrightarrow> re suffix = None)"
proof (induction s)
  case Nil
  show ?case by (auto split: option.splits)
next
  case (Cons c s)
  show ?case
  proof
    assume n: "firstMatch re (c # s) = None"
    then have here: "re (c # s) = None" and later: "firstMatch re s = None"
      by (auto split: option.splits)
    show "\<forall>pre suffix. c # s = pre @ suffix \<longrightarrow> re suffix = None"
    proof (intro allI impI)
      fix pre suffix assume eq: "c # s = pre @ suffix"
      show "re suffix = None"
      proof (cases pre)
        case Nil then show ?thesis using eq here by simp
      next
        case (Cons p pre')
        then have "s = pre' @ suffix" using eq by simp
        then show ?thesis using later Cons.IH by blast
      qed
    qed
  next
    assume a: "\<forall>pre suffix. c # s = pre @ suffix \<longrightarrow> re suffix = None"
    have here: "re (c # s) = None" using a [rule_format, of "[]" "c # s"] by simp
    have "\<forall>pre suffix. s = pre @ suffix \<longrightarrow> re suffix = None"
    proof (intro allI impI)
      fix pre suffix assume "s = pre @ suffix"
      then have "c # s = (c # pre) @ suffix" by simp
      then show "re suffix = None" using a by blast
    qed
    then have "firstMatch re s = None" using Cons.IH by blast
    then show "firstMatch re (c # s) = None" using here by simp
  qed
qed

lemma length_svg_open: "length (str ''<svg'') = 4"
  by (simp add: str_def)

lemma svgTagRegex_eq:
  "svgTagRegex s = (if take 4 s = str ''<svg'' then upTo 0x3E (drop 4 s) else None)"
  by (simp only: svgTagRegex_def startsWith_def length_svg_open)

lemma svgTagRegex_Some:
  "svgTagRegex s = Some (g, post) \<longleftrightarrow> s = str ''<svg'' @ g @ 0x3E # post \<and> 0x3E \<notin> set g"
proof
  assume m: "svgTagRegex s = Some (g, post)"
  then have sw: "take 4 s = str ''<svg''" and u: "upTo 0x3E (drop 4 s) = Some (g, post)"
    by (auto simp: svgTagRegex_eq split: if_splits)
  have "s = take 4 s @ drop 4 s" by simp
  then have "s = str ''<svg'' @ drop 4 s" using sw by simp
  then show "s = str ''<svg'' @ g @ 0x3E # post \<and> 0x3E \<notin> set g"
    using upTo_Some [OF u] by simp
next
  assume a: "s = str ''<svg'' @ g @ 0x3E # post \<and> 0x3E \<notin> set g"
  then have "take 4 s = str ''<svg''" "drop 4 s = g @ 0x3E # post"
    using length_svg_open by simp_all
  then show "svgTagRegex s = Some (g, post)"
    using a by (simp add: svgTagRegex_eq upTo_append)
qed

lemma svgTagRegex_None:
  "svgTagRegex s = None \<longleftrightarrow> \<not> (\<exists>t. s = str ''<svg'' @ t \<and> 0x3E \<in> set t)"
proof
  assume n: "svgTagRegex s = None"
  show "\<not> (\<exists>t. s = str ''<svg'' @ t \<and> 0x3E \<in> set t)"
  proof
    assume "\<exists>t. s = str ''<svg'' @ t \<and> 0x3E \<in> set t"
    then obtain t where t: "s = str ''<svg'' @ t" "0x3E \<in> set t" by blast
    then have "take 4 s = str ''<svg''" "drop 4 s = t"
      using length_svg_open by simp_all
    then have "svgTagRegex s = upTo 0x3E t"
      by (simp add: svgTagRegex_eq)
    then show False using n t(2) upTo_None [of "0x3E" t] by simp
  qed
next
  assume a: "\<not> (\<exists>t. s = str ''<svg'' @ t \<and> 0x3E \<in> set t)"
  show "svgTagRegex s = None"
  proof (cases "svgTagRegex s")
    case None then show ?thesis .
  next
    case (Some m)
    obtain g post where "m = (g, post)" by (cases m)
    then have "s = str ''<svg'' @ (g @ 0x3E # post)" using Some svgTagRegex_Some by simp
    moreover have "0x3E \<in> set (g @ 0x3E # post)" by simp
    ultimately show ?thesis using a by blast
  qed
qed

lemma svgTagRegex_None_iff:
  "svgTagRegex t = None \<longleftrightarrow> \<not> (startsWith t (str ''<svg'') \<and> 0x3E \<in> set (drop 4 t))"
  by (simp add: svgTagRegex_def upTo_None)

lemma firstMatch_svgTagRegex_None:
  "firstMatch svgTagRegex s = None \<longleftrightarrow> \<not> hasRootOpeningTag s"
proof (induction s)
  case Nil
  show ?case by (simp add: svgTagRegex_def startsWith_def str_def)
next
  case (Cons c s)
  have "firstMatch svgTagRegex (c # s) = None
      \<longleftrightarrow> svgTagRegex (c # s) = None \<and> firstMatch svgTagRegex s = None"
    by (auto split: option.splits)
  then show ?case using Cons svgTagRegex_None_iff [of "c # s"] by simp
qed

lemma hasRootOpeningTag_iff:
  "hasRootOpeningTag s \<longleftrightarrow> (\<exists>pre attrs post. s = pre @ str ''<svg'' @ attrs @ 0x3E # post)"
proof
  assume "hasRootOpeningTag s"
  then have "firstMatch svgTagRegex s \<noteq> None" using firstMatch_svgTagRegex_None by simp
  then obtain pre g post where m: "firstMatch svgTagRegex s = Some (pre, g, post)" by auto
  have "\<exists>suffix. s = pre @ suffix \<and> svgTagRegex suffix = Some (g, post)"
    using m by (intro firstMatch_Some) simp
  then obtain suffix where suffix: "s = pre @ suffix" "svgTagRegex suffix = Some (g, post)"
    by blast
  have "suffix = str ''<svg'' @ g @ 0x3E # post"
    using suffix(2) svgTagRegex_Some [of suffix g post] by simp
  then show "\<exists>pre attrs post. s = pre @ str ''<svg'' @ attrs @ 0x3E # post"
    using suffix(1) by blast
next
  assume "\<exists>pre attrs post. s = pre @ str ''<svg'' @ attrs @ 0x3E # post"
  then obtain pre attrs post where s: "s = pre @ str ''<svg'' @ attrs @ 0x3E # post" by blast
  have "\<exists>t. str ''<svg'' @ attrs @ 0x3E # post = str ''<svg'' @ t \<and> 0x3E \<in> set t"
    by (rule exI [of _ "attrs @ 0x3E # post"]) simp
  then have "svgTagRegex (str ''<svg'' @ attrs @ 0x3E # post) \<noteq> None"
    using svgTagRegex_None [of "str ''<svg'' @ attrs @ 0x3E # post"] by blast
  then have here: "svgTagRegex (str ''<svg'' @ attrs @ 0x3E # post) \<noteq> None" .
  have "firstMatch svgTagRegex s \<noteq> None"
  proof
    assume "firstMatch svgTagRegex s = None"
    then have "\<forall>pre suffix. s = pre @ suffix \<longrightarrow> svgTagRegex suffix = None"
      using firstMatch_None [of svgTagRegex s] by simp
    then have "svgTagRegex (str ''<svg'' @ attrs @ 0x3E # post) = None"
      using s by (elim allE [of _ pre] allE [of _ "str ''<svg'' @ attrs @ 0x3E # post"]) simp
    then show False using here by simp
  qed
  then show "hasRootOpeningTag s" using firstMatch_svgTagRegex_None by simp
qed

lemma removeFirst_subset:
  assumes "\<And>t g post. re t = Some (g, post) \<Longrightarrow> set post \<subseteq> set t"
  shows "set (removeFirst re s) \<subseteq> set s"
proof (cases "firstMatch re s")
  case None then show ?thesis by (simp add: removeFirst_def)
next
  case (Some r)
  obtain pre g post where r: "r = (pre, g, post)" by (cases r) auto
  have "\<exists>suffix. s = pre @ suffix \<and> re suffix = Some (g, post)"
    using Some r by (intro firstMatch_Some) simp
  then obtain suffix where suffix: "s = pre @ suffix" "re suffix = Some (g, post)" by blast
  have "set post \<subseteq> set suffix" using suffix(2) by (rule assms)
  then show ?thesis using Some r suffix(1) by (auto simp: removeFirst_def)
qed

lemma upTo_rest_subset: "upTo q (drop n t) = Some (g, post) \<Longrightarrow> set post \<subseteq> set t"
proof -
  assume "upTo q (drop n t) = Some (g, post)"
  then have "drop n t = g @ q # post" using upTo_Some by blast
  then have "set post \<subseteq> set (drop n t)" by auto
  then show ?thesis using set_drop_subset [of n t] by blast
qed

lemma removeFirst_fill_stroke_subset:
  "set (removeFirst strokeRegex (removeFirst fillRegex g)) \<subseteq> set g"
proof -
  have f: "set (removeFirst fillRegex g) \<subseteq> set g"
    by (rule removeFirst_subset) (auto simp: fillRegex_def dest: upTo_rest_subset split: if_splits)
  have "set (removeFirst strokeRegex (removeFirst fillRegex g)) \<subseteq> set (removeFirst fillRegex g)"
    by (rule removeFirst_subset) (auto simp: strokeRegex_def dest: upTo_rest_subset split: if_splits)
  then show ?thesis using f by blast
qed

lemma GetSubstitution_plain:
  "0x24 \<notin> set t \<Longrightarrow> GetSubstitution matched pre post capture t = t"
  by (induction matched pre post capture t rule: GetSubstitution.induct) auto

text \<open>
  What the substitution does by design. With a root opening tag in the base text, the
  result is the base text with the first match replaced: the text before and after the match
  is kept as it is, so no other element changes. When neither the text inside the matched tag
  nor the colour holds a dollar sign, the new tag is \<open><svg\<close>, the captured text without its
  first \<open>fill="..."\<close> and its first \<open>stroke="..."\<close>, and the new \<open>fill\<close>.
\<close>

lemma previewRenderSvg_replaces_first_match:
  assumes "hasRootOpeningTag base"
  shows \<open>\<exists>pre group1 post tag.
           firstMatch svgTagRegex base = Some (pre, group1, post)
         \<and> base = pre @ str ''<svg'' @ group1 @ 0x3E # post \<and> 0x3E \<notin> set group1
         \<and> previewRenderSvg base previewColor = pre @ tag @ post
         \<and> (0x24 \<notin> set group1 \<and> 0x24 \<notin> set previewColor \<longrightarrow>
              tag = str ''<svg'' @ removeFirst strokeRegex (removeFirst fillRegex group1)
                    @ str '' fill="'' @ previewColor @ str ''">'')\<close>
proof -
  have "firstMatch svgTagRegex base \<noteq> None"
    using assms firstMatch_svgTagRegex_None by simp
  then obtain pre g post where m: "firstMatch svgTagRegex base = Some (pre, g, post)" by auto
  have "\<exists>suffix. base = pre @ suffix \<and> svgTagRegex suffix = Some (g, post)"
    using m by (intro firstMatch_Some) simp
  then obtain suffix where suffix: "base = pre @ suffix" "svgTagRegex suffix = Some (g, post)"
    by blast
  have shape: "suffix = str ''<svg'' @ g @ 0x3E # post" "0x3E \<notin> set g"
    using suffix(2) svgTagRegex_Some [of suffix g post] by simp_all
  have ne: "base \<noteq> []" using suffix(1) shape(1) by (simp add: str_def)
  define attributes where "attributes = removeFirst strokeRegex (removeFirst fillRegex g)"
  define newSvgTag where
    \<open>newSvgTag = str ''<svg'' @ attributes @ str '' fill="'' @ previewColor @ str ''">''\<close>
  define tag where
    "tag = GetSubstitution (str ''<svg'' @ g @ [0x3E]) pre post g newSvgTag"
  have res: "previewRenderSvg base previewColor = pre @ tag @ post"
    using m ne by (simp add: previewRenderSvg_def tag_def newSvgTag_def attributes_def)
  have plain: "tag = newSvgTag" if "0x24 \<notin> set g" "0x24 \<notin> set previewColor"
  proof -
    have "0x24 \<notin> set attributes"
      using that(1) removeFirst_fill_stroke_subset [of g] unfolding attributes_def by blast
    then have "0x24 \<notin> set newSvgTag"
      using that(2) by (simp add: newSvgTag_def str_def)
    then show ?thesis unfolding tag_def by (rule GetSubstitution_plain)
  qed
  show ?thesis
    using m suffix(1) shape res plain unfolding newSvgTag_def attributes_def by blast
qed

text \<open>
  Claim C3, as the code has it. A base text without a recognizable root opening tag is
  returned as it is: the colourised text equals the base text. It is the empty string
  only when the base text is empty.
\<close>

theorem previewRenderSvg_without_root_tag:
  assumes "\<not> hasRootOpeningTag base"
  shows "previewRenderSvg base previewColor = base"
  using assms firstMatch_svgTagRegex_None [of base] by (simp add: previewRenderSvg_def)

theorem previewRenderSvg_without_root_tag_witness:
  "\<not> hasRootOpeningTag (str ''hello'')
   \<and> previewRenderSvg (str ''hello'') (str ''#ff0000'') = str ''hello''"
proof -
  have "firstMatch svgTagRegex (str ''hello'') = None"
    by (simp add: svgTagRegex_eq str_def)
  then have h: "\<not> hasRootOpeningTag (str ''hello'')"
    using firstMatch_svgTagRegex_None by blast
  then show ?thesis using previewRenderSvg_without_root_tag [OF h] by simp
qed

text \<open>
  Claim C3 as stated fails: \<open><p>\<close> is not empty and has no root opening tag, and its
  colourised text is \<open><p>\<close>, not the empty string.
\<close>

theorem previewRenderSvg_not_empty_counterexample:
  "str ''<p>'' \<noteq> [] \<and> \<not> hasRootOpeningTag (str ''<p>'')
   \<and> previewRenderSvg (str ''<p>'') (str ''#ff0000'') \<noteq> []"
proof -
  have n: "firstMatch svgTagRegex (str ''<p>'') = None"
    by (simp add: svgTagRegex_eq str_def)
  then have "\<not> hasRootOpeningTag (str ''<p>'')"
    using firstMatch_svgTagRegex_None by blast
  then show ?thesis using n by (simp add: previewRenderSvg_def str_def)
qed

text \<open>
  Claim C4 at the base text \<open><svg id="a$$b"><path fill="red"/></svg>\<close>, which the
  transformer returns for itself. The root has neither \<open>fill\<close> nor \<open>stroke\<close>, so the
  colourised text should be the base text with \<open> fill="#ff0000"\<close> added to the root tag.
  The new tag is used as a replacement pattern, though, and \<open>$$\<close> in it is read as one
  dollar sign: the \<open>id\<close> of the root changes from \<open>a$$b\<close> to \<open>a$b\<close>. The element
  after the root tag keeps its \<open>fill\<close>.
\<close>

theorem previewRenderSvg_dollar_in_root_tag:
  \<open>previewRenderSvg (str ''<svg id="a$$b"><path fill="red"/></svg>'') (str ''#ff0000'')
     = str ''<svg id="a$b" fill="#ff0000"><path fill="red"/></svg>''\<close>
  by (simp add: preview_eval)

section \<open>The data URL of the preview: lemmas and claims\<close>

lemma unat_cu: "n < 65536 \<Longrightarrow> unat (of_nat n :: code_unit) = n"
  by (simp add: unat_of_nat)
lemma cu_unat: "(of_nat (unat c) :: code_unit) = c" by simp
lemma unat_lt: "unat (c :: code_unit) < 65536" using unsigned_less [of c, where ?'a = nat] by simp
lemma cu_eq_iff: "(c :: code_unit) = d \<longleftrightarrow> unat c = unat d" by (simp add: word_unat_eq_iff)
lemma cu_eq_numeral: "(c :: code_unit) = numeral k \<longleftrightarrow> unat c = numeral k mod 65536"
  by (simp add: word_unat_eq_iff unat_of_nat unsigned_numeral take_bit_eq_mod)

lemma hexChar_not_u: "d < 16 \<Longrightarrow> hexChar d \<noteq> 0x75"
  by (auto simp: hexChar_def cu_eq_numeral unat_cu)

lemma hexValue_hexChar: "d < 16 \<Longrightarrow> hexValue (hexChar d) = Some d"
  by (auto simp: hexChar_def hexValue_def unat_cu Let_def)

lemma unescape_percent:
  assumes "b < 256"
  shows "unescape (0x25 # hexChar (b div 16) # hexChar (b mod 16) # rest) = of_nat b # unescape rest"
proof -
  have d: "b div 16 < 16" "b mod 16 < 16" using assms by auto
  have p: "parseHex 0 [hexChar (b div 16), hexChar (b mod 16)] = Some b"
    using d by (simp add: hexValue_hexChar)
  show ?thesis using hexChar_not_u [OF d(1)] p by simp
qed

lemma unescape_percentEncode:
  "list_all (\<lambda>b. b < 256) octets \<Longrightarrow>
   unescape (percentEncode octets @ rest) = map of_nat octets @ unescape rest"
  by (induction octets) (simp_all add: percentEncode_def unescape_percent del: unescape.simps)

lemma unescape_plain: "c \<noteq> 0x25 \<Longrightarrow> unescape (c # rest) = c # unescape rest"
  by simp

lemma uriUnescaped_not_percent: "uriUnescaped c \<Longrightarrow> c \<noteq> 0x25"
  by (auto simp: uriUnescaped_def Let_def)

lemma uriUnescaped_not_surrogate:
  "uriUnescaped c \<Longrightarrow> \<not> isLeadingSurrogate c \<and> \<not> isTrailingSurrogate c"
  by (auto simp: uriUnescaped_def isLeadingSurrogate_def isTrailingSurrogate_def Let_def)

lemma uriUnescaped_ascii: "uriUnescaped c \<Longrightarrow> unat c < 0x80"
  by (auto simp: uriUnescaped_def Let_def)


lemma split2: "(n::nat) div 64 * 64 + n mod 64 = n" by simp
lemma split3: "(n::nat) div 4096 * 4096 + n div 64 mod 64 * 64 + n mod 64 = n"
proof -
  have "n div 64 div 64 = n div 4096" by (simp add: div_mult2_eq)
  then have "n div 64 = n div 4096 * 64 + n div 64 mod 64"
    using div_mult_mod_eq [of "n div 64" 64] by simp
  then have "n div 4096 * 4096 + n div 64 mod 64 * 64 = n div 64 * 64" by simp
  then show ?thesis by simp
qed
lemma split4: "(n::nat) div 262144 * 262144 + n div 4096 mod 64 * 4096 + n div 64 mod 64 * 64 + n mod 64 = n"
proof -
  have "n div 4096 div 64 = n div 262144" by (simp add: div_mult2_eq)
  then have "n div 4096 = n div 262144 * 64 + n div 4096 mod 64"
    using div_mult_mod_eq [of "n div 4096" 64] by simp
  then have "n div 262144 * 262144 + n div 4096 mod 64 * 4096 = n div 4096 * 4096" by simp
  then show ?thesis using split3 [of n] by simp
qed
lemma lead4_bound: "(cp::nat) < 0x110000 \<Longrightarrow> cp div 0x40000 < 5"
  by (rule less_mult_imp_div_less) simp
lemma lead3_bound: "(cp::nat) < 0x10000 \<Longrightarrow> cp div 0x1000 < 16"
  by (rule less_mult_imp_div_less) simp
lemma lead2_bound: "(cp::nat) < 0x800 \<Longrightarrow> cp div 0x40 < 32"
  by (rule less_mult_imp_div_less) simp
lemma lead2_lower: "0x80 \<le> (cp::nat) \<Longrightarrow> 2 \<le> cp div 0x40"
  by (simp add: Suc_le_eq div_greater_zero_iff less_eq_div_iff_mult_less_eq)

lemma utf8Octets_bytes: "cp < 0x110000 \<Longrightarrow> list_all (\<lambda>b. b < 256) (utf8Octets cp)"
proof -
  assume cp: "cp < 0x110000"
  have m: "cp mod 0x40 < 0x40" "cp div 0x40 mod 0x40 < 0x40" "cp div 0x1000 mod 0x40 < 0x40"
    by simp_all
  have "cp div 0x40000 < 5" using cp by (rule lead4_bound)
  moreover have "cp < 0x10000 \<Longrightarrow> cp div 0x1000 < 16" by (rule lead3_bound)
  moreover have "cp < 0x800 \<Longrightarrow> cp div 0x40 < 32" by (rule lead2_bound)
  ultimately show ?thesis using m unfolding utf8Octets_def by auto
qed

lemma utf8Decode_utf8Octets:
  assumes "cp < 0x110000" "\<not> (0xD800 \<le> cp \<and> cp < 0xE000)"
  shows "utf8Decode (utf8Octets cp @ bs) = map_option ((@) (codeUnitsOf cp)) (utf8Decode bs)"
proof -
  consider "cp < 0x80" | "0x80 \<le> cp" "cp < 0x800" | "0x800 \<le> cp" "cp < 0x10000"
    | "0x10000 \<le> cp" by linarith
  then show ?thesis
  proof cases
    case 1 then show ?thesis by (simp add: utf8Octets_def)
  next
    case 2
    define h l where "h = cp div 0x40" and "l = cp mod 0x40"
    have f: "2 \<le> h" "h < 32" "l < 0x40" "h * 0x40 + l = cp"
      using 2 lead2_lower lead2_bound split2 [of cp] by (simp_all add: h_def l_def)
    have "utf8Octets cp = [0xC0 + h, 0x80 + l]" using 2 by (simp add: utf8Octets_def h_def l_def)
    then show ?thesis using f by (simp add: isContinuation_def)
  next
    case 3
    define h m l where "h = cp div 0x1000" and "m = cp div 0x40 mod 0x40" and "l = cp mod 0x40"
    have f: "h < 16" "m < 0x40" "l < 0x40" "h * 0x1000 + m * 0x40 + l = cp"
      using 3 lead3_bound split3 [of cp] by (simp_all add: h_def m_def l_def)
    have "utf8Octets cp = [0xE0 + h, 0x80 + m, 0x80 + l]"
      using 3 by (simp add: utf8Octets_def h_def m_def l_def)
    then show ?thesis using f 3 assms(2) by (simp add: isContinuation_def Let_def)
  next
    case 4
    define h k m l where "h = cp div 0x40000" and "k = cp div 0x1000 mod 0x40"
      and "m = cp div 0x40 mod 0x40" and "l = cp mod 0x40"
    have f: "h < 5" "k < 0x40" "m < 0x40" "l < 0x40" "h * 0x40000 + k * 0x1000 + m * 0x40 + l = cp"
      using assms(1) lead4_bound split4 [of cp] by (simp_all add: h_def k_def m_def l_def)
    have "utf8Octets cp = [0xF0 + h, 0x80 + k, 0x80 + m, 0x80 + l]"
      using 4 by (simp add: utf8Octets_def h_def k_def m_def l_def)
    then show ?thesis using f 4 assms(1) by (simp add: isContinuation_def Let_def)
  qed
qed

lemma codeUnitsOf_unit: "codeUnitsOf (unat (c :: code_unit)) = [c]"
  using unat_lt [of c] by (simp add: codeUnitsOf_def)

lemma codePointOfPair_range:
  assumes "isLeadingSurrogate c" "isTrailingSurrogate d"
  shows "0x10000 \<le> codePointOfPair c d" "codePointOfPair c d < 0x110000"
  using assms
  by (auto simp: codePointOfPair_def isLeadingSurrogate_def isTrailingSurrogate_def)

lemma codeUnitsOf_pair:
  assumes "isLeadingSurrogate c" "isTrailingSurrogate d"
  shows "codeUnitsOf (codePointOfPair c d) = [c, d]"
proof -
  define h l where "h = unat c - 0xD800" and "l = unat d - 0xDC00"
  have hl: "l < 0x400" "unat c = 0xD800 + h" "unat d = 0xDC00 + l"
    using assms by (auto simp: h_def l_def isLeadingSurrogate_def isTrailingSurrogate_def)
  have cp: "codePointOfPair c d = h * 0x400 + l + 0x10000"
    by (simp add: codePointOfPair_def h_def l_def)
  have "(h * 0x400 + l) div 0x400 = h" "(h * 0x400 + l) mod 0x400 = l"
    using hl(1) by simp_all
  then have "codeUnitsOf (codePointOfPair c d) = [of_nat (unat c), of_nat (unat d)]"
    by (simp add: cp codeUnitsOf_def hl(2,3))
  then show ?thesis by simp
qed

lemma followedBy_Inr:
  "followedBy s r = Inr e \<longleftrightarrow> (\<exists>t. r = Inr t \<and> e = s @ t)"
  by (auto simp: followedBy_def split: sum.splits)

lemma followedBy_Inl: "followedBy s r = Inl x \<longleftrightarrow> r = Inl x"
  by (auto simp: followedBy_def split: sum.splits)

lemma map_unat_of_nat:
  "list_all (\<lambda>b. b < 256) octets \<Longrightarrow> map unat (map of_nat octets :: jsstring) = octets"
  by (induction octets) (simp_all add: unat_cu)

lemma map_unat_comp_of_nat:
  "list_all (\<lambda>b. b < 256) octets \<Longrightarrow> map (unat \<circ> (of_nat :: nat \<Rightarrow> code_unit)) octets = octets"
  by (induction octets) (simp_all add: unat_cu)

lemma list_all_of_nat_bytes:
  "list_all (\<lambda>b. b < 256) octets \<Longrightarrow> list_all (\<lambda>c. unat c < 256) (map of_nat octets :: jsstring)"
  by (induction octets) (simp_all add: unat_cu)

lemma binaryString_Nil: "binaryString [] []"
  by (simp add: binaryString_def)

lemma binaryString_plain:
  assumes "unat c < 0x80" "binaryString text b"
  shows "binaryString (c # text) (c # b)"
  using assms codeUnitsOf_unit [of c] by (simp add: binaryString_def)

lemma binaryString_octets:
  assumes "cp < 0x110000" "\<not> (0xD800 \<le> cp \<and> cp < 0xE000)" "binaryString text b"
  shows "binaryString (codeUnitsOf cp @ text) (map of_nat (utf8Octets cp) @ b)"
proof -
  have bytes: "list_all (\<lambda>b. b < 256) (utf8Octets cp)" using assms(1) by (rule utf8Octets_bytes)
  have "utf8Decode (utf8Octets cp @ map unat b) = Some (codeUnitsOf cp @ text)"
    using utf8Decode_utf8Octets [OF assms(1,2)] assms(3) by (simp add: binaryString_def)
  then show ?thesis
    using assms(3) bytes by (simp add: binaryString_def map_unat_comp_of_nat list_all_of_nat_bytes)
qed

lemma binaryString_unit:
  assumes "\<not> isLeadingSurrogate c" "\<not> isTrailingSurrogate c" "binaryString text b"
  shows "binaryString (c # text) (map of_nat (utf8Octets (unat c)) @ b)"
proof -
  have "unat c < 0x110000" using unat_lt [of c] by simp
  moreover have "\<not> (0xD800 \<le> unat c \<and> unat c < 0xE000)"
    using assms(1,2) by (auto simp: isLeadingSurrogate_def isTrailingSurrogate_def)
  ultimately show ?thesis
    using binaryString_octets [of "unat c" "text" b] assms(3) by (simp add: codeUnitsOf_unit)
qed

lemma binaryString_pair:
  assumes "isLeadingSurrogate c" "isTrailingSurrogate d" "binaryString text b"
  shows "binaryString (c # d # text) (map of_nat (utf8Octets (codePointOfPair c d)) @ b)"
proof -
  have "\<not> (0xD800 \<le> codePointOfPair c d \<and> codePointOfPair c d < 0xE000)"
    using codePointOfPair_range(1) [OF assms(1,2)] by simp
  then show ?thesis
    using binaryString_octets [of "codePointOfPair c d" "text" b] assms
      codePointOfPair_range(2) [OF assms(1,2)]
    by (simp add: codeUnitsOf_pair)
qed

lemma unescape_encodeURIComponent:
  "encodeURIComponent s = Inr e \<Longrightarrow> binaryString s (unescape e)"
proof (induction s arbitrary: e rule: encodeURIComponent.induct)
  case 1
  then show ?case by (simp add: binaryString_Nil)
next
  case (2 c)
  show ?case
  proof (cases "uriUnescaped c")
    case True
    then have "e = [c]" using 2 by simp
    then show ?thesis
      using binaryString_plain [OF uriUnescaped_ascii [OF True] binaryString_Nil]
        uriUnescaped_not_percent [OF True] by simp
  next
    case False
    then have ns: "\<not> isLeadingSurrogate c" "\<not> isTrailingSurrogate c"
      and e: "e = percentEncode (utf8Octets (unat c))"
      using 2 by (auto split: if_splits)
    have "unat c < 0x110000" using unat_lt [of c] by simp
    then have "unescape (percentEncode (utf8Octets (unat c)) @ []) = map of_nat (utf8Octets (unat c)) @ unescape []"
      by (intro unescape_percentEncode utf8Octets_bytes)
    then show ?thesis using binaryString_unit [OF ns binaryString_Nil] e by simp
  qed
next
  case (3 c d cs)
  show ?case
  proof (cases "uriUnescaped c")
    case True
    then obtain t where t: "encodeURIComponent (d # cs) = Inr t" "e = c # t"
      using "3.prems" by (auto simp: followedBy_Inr)
    have "binaryString (d # cs) (unescape t)" using "3.IH"(1) [OF True t(1)] .
    then show ?thesis
      using binaryString_plain [OF uriUnescaped_ascii [OF True]] t(2)
        unescape_plain [OF uriUnescaped_not_percent [OF True]] by simp
  next
    case False
    then have nt: "\<not> isTrailingSurrogate c" using "3.prems" by (auto split: if_splits)
    show ?thesis
    proof (cases "isLeadingSurrogate c")
      case True
      then have tr: "isTrailingSurrogate d" using "3.prems" False nt by (auto split: if_splits)
      then obtain t where t: "encodeURIComponent cs = Inr t"
        "e = percentEncode (utf8Octets (codePointOfPair c d)) @ t"
        using "3.prems" False nt True by (auto simp: followedBy_Inr)
      have ih: "binaryString cs (unescape t)" using "3.IH"(2) [OF False nt True tr t(1)] .
      have "unescape e = map of_nat (utf8Octets (codePointOfPair c d)) @ unescape t"
        unfolding t(2)
        by (intro unescape_percentEncode utf8Octets_bytes codePointOfPair_range(2) True tr)
      then show ?thesis using binaryString_pair [OF True tr ih] by simp
    next
      case nl: False
      then obtain t where t: "encodeURIComponent (d # cs) = Inr t"
        "e = percentEncode (utf8Octets (unat c)) @ t"
        using "3.prems" False nt by (auto simp: followedBy_Inr)
      have ih: "binaryString (d # cs) (unescape t)" using "3.IH"(3) [OF False nt nl t(1)] .
      have "unat c < 0x110000" using unat_lt [of c] by simp
      then have "unescape e = map of_nat (utf8Octets (unat c)) @ unescape t"
        unfolding t(2) by (intro unescape_percentEncode utf8Octets_bytes)
      then show ?thesis using binaryString_unit [OF nl nt ih] by simp
    qed
  qed
qed

lemma leading_not_trailing: "isLeadingSurrogate c \<Longrightarrow> \<not> isTrailingSurrogate c"
  by (simp add: isLeadingSurrogate_def isTrailingSurrogate_def)

lemma encodeURIComponent_throws:
  "(\<exists>x. encodeURIComponent s = Inl x) \<longleftrightarrow> \<not> isWellFormed s"
  by (induction s rule: encodeURIComponent.induct)
     (auto simp: followedBy_Inl uriUnescaped_not_surrogate leading_not_trailing)

lemma unat_base64Char:
  "v < 64 \<Longrightarrow>
   unat (base64Char v) =
     (if v < 26 then 0x41 + v
      else if v < 52 then 0x61 + (v - 26)
      else if v < 62 then 0x30 + (v - 52)
      else if v = 62 then 0x2B else 0x2F)"
  unfolding base64Char_def by (rule unat_cu) auto

lemma base64Value_base64Char: "v < 64 \<Longrightarrow> base64Value (base64Char v) = Some v"
proof -
  assume v: "v < 64"
  consider "v < 26" | "26 \<le> v" "v < 52" | "52 \<le> v" "v < 62" | "v = 62" | "v = 63"
    using v by linarith
  then show ?thesis
    by cases (auto simp: base64Value_def unat_base64Char Let_def)
qed

lemma base64Char_not_pad: "v < 64 \<Longrightarrow> base64Char v \<noteq> 0x3D"
proof -
  assume v: "v < 64"
  consider "v < 26" | "26 \<le> v" "v < 52" | "52 \<le> v" "v < 62" | "v = 62" | "v = 63"
    using v by linarith
  then have "unat (base64Char v) \<noteq> 0x3D"
    by cases (auto simp: unat_base64Char)
  then show ?thesis by (auto simp: cu_eq_numeral)
qed

lemma sextet_bounds:
  fixes a b c :: nat
  assumes "a < 256" "b < 256" "c < 256"
  shows "a div 4 < 64" "a mod 4 * 16 + b div 16 < 64" "b mod 16 * 4 + c div 64 < 64" "c mod 64 < 64"
    "a mod 4 * 16 < 64" "b mod 16 * 4 < 64"
proof -
  have "b div 16 < 16" "c div 64 < 4" "a div 4 < 64"
    using assms by (auto intro: less_mult_imp_div_less)
  moreover have "a mod 4 < 4" "b mod 16 < 16" "c mod 64 < 64" by simp_all
  ultimately show "a div 4 < 64" "a mod 4 * 16 + b div 16 < 64" "b mod 16 * 4 + c div 64 < 64"
    "c mod 64 < 64" "a mod 4 * 16 < 64" "b mod 16 * 4 < 64"
    by linarith+
qed

lemma sextet_inverse:
  fixes a b c :: nat
  assumes "b < 256" "c < 256"
  shows "a div 4 * 4 + (a mod 4 * 16 + b div 16) div 16 = a"
    "(a mod 4 * 16 + b div 16) mod 16 * 16 + (b mod 16 * 4 + c div 64) div 4 = b"
    "(b mod 16 * 4 + c div 64) mod 4 * 64 + c mod 64 = c"
    "a div 4 * 4 + (a mod 4 * 16) div 16 = a" "(a mod 4 * 16) mod 16 = 0"
    "(a mod 4 * 16 + b div 16) mod 16 * 16 + (b mod 16 * 4) div 4 = b" "(b mod 16 * 4) mod 4 = 0"
proof -
  have b: "b div 16 < 16" and c: "c div 64 < 4"
    using assms by (auto intro: less_mult_imp_div_less)
  have 1: "(a mod 4 * 16 + b div 16) div 16 = a mod 4" using b by simp
  have 2: "(a mod 4 * 16 + b div 16) mod 16 = b div 16" using b by simp
  have 3: "(b mod 16 * 4 + c div 64) div 4 = b mod 16" using c by simp
  have 4: "(b mod 16 * 4 + c div 64) mod 4 = c div 64" using c by simp
  show "a div 4 * 4 + (a mod 4 * 16 + b div 16) div 16 = a" unfolding 1 by simp
  show "(a mod 4 * 16 + b div 16) mod 16 * 16 + (b mod 16 * 4 + c div 64) div 4 = b"
    unfolding 2 3 by simp
  show "(b mod 16 * 4 + c div 64) mod 4 * 64 + c mod 64 = c" unfolding 4 by simp
  show "a div 4 * 4 + (a mod 4 * 16) div 16 = a" by simp
  show "(a mod 4 * 16) mod 16 = 0" by simp
  show "(a mod 4 * 16 + b div 16) mod 16 * 16 + (b mod 16 * 4) div 4 = b" unfolding 2 by simp
  show "(b mod 16 * 4) mod 4 = 0" by simp
qed

lemma base64Decode_group:
  assumes "x < 64" "y < 64" "z < 64" "w < 64"
  shows "base64Decode (base64Char x # base64Char y # base64Char z # base64Char w # rest) =
    (case base64Decode rest of
       None \<Rightarrow> None
     | Some bs \<Rightarrow> Some ([x * 4 + y div 16, y mod 16 * 16 + z div 4, z mod 4 * 64 + w] @ bs))"
  using assms by (simp add: base64Value_base64Char base64Char_not_pad)

lemma base64Decode_last2:
  assumes "x < 64" "y < 64" "z < 64" "z mod 4 = 0"
  shows "base64Decode [base64Char x, base64Char y, base64Char z, 0x3D] =
    Some [x * 4 + y div 16, y mod 16 * 16 + z div 4]"
  using assms by (simp add: base64Value_base64Char base64Char_not_pad)

lemma base64Decode_last1:
  assumes "x < 64" "y < 64" "y mod 16 = 0"
  shows "base64Decode [base64Char x, base64Char y, 0x3D, 0x3D] = Some [x * 4 + y div 16]"
  using assms by (simp add: base64Value_base64Char)

lemma base64Decode_base64Encode:
  "list_all (\<lambda>b. b < 256) octets \<Longrightarrow> base64Decode (base64Encode octets) = Some octets"
proof (induction octets rule: base64Encode.induct)
  case 1
  show ?case by simp
next
  case (2 a)
  then have a: "a < 256" by simp
  define x y where "x = a div 4" and "y = a mod 4 * 16"
  have b: "x < 64" "y < 64" using sextet_bounds(1,5) [OF a a a] by (simp_all add: x_def y_def)
  have i: "y mod 16 = 0" "x * 4 + y div 16 = a"
    using sextet_inverse(4,5) [OF a a, of a] by (simp_all add: x_def y_def)
  have "base64Encode [a] = [base64Char x, base64Char y, 0x3D, 0x3D]"
    by (simp add: x_def y_def)
  then show ?case using base64Decode_last1 [OF b i(1)] i(2) by simp
next
  case (3 a b)
  then have ab: "a < 256" "b < 256" by simp_all
  define x y z where "x = a div 4" and "y = a mod 4 * 16 + b div 16" and "z = b mod 16 * 4"
  have bd: "x < 64" "y < 64" "z < 64"
    using sextet_bounds(1,2,6) [OF ab ab(1)] by (simp_all add: x_def y_def z_def)
  have i: "z mod 4 = 0" "x * 4 + y div 16 = a" "y mod 16 * 16 + z div 4 = b"
    using sextet_inverse(1,6) [OF ab(2) ab(1), of a] sextet_inverse(7) [OF ab(2) ab(1)] by (simp_all add: x_def y_def z_def)
  have "base64Encode [a, b] = [base64Char x, base64Char y, base64Char z, 0x3D]"
    by (simp add: x_def y_def z_def)
  then show ?case using base64Decode_last2 [OF bd i(1)] i(2,3) by simp
next
  case (4 a b c rest)
  then have abc: "a < 256" "b < 256" "c < 256" and ih: "base64Decode (base64Encode rest) = Some rest"
    by simp_all
  define x y z w where "x = a div 4" and "y = a mod 4 * 16 + b div 16"
    and "z = b mod 16 * 4 + c div 64" and "w = c mod 64"
  have bd: "x < 64" "y < 64" "z < 64" "w < 64"
    using sextet_bounds(1-4) [OF abc] by (simp_all add: x_def y_def z_def w_def)
  have i: "x * 4 + y div 16 = a" "y mod 16 * 16 + z div 4 = b" "z mod 4 * 64 + w = c"
    using sextet_inverse(1,2) [OF abc(2,3), of a] sextet_inverse(3) [OF abc(2,3)] by (simp_all add: x_def y_def z_def w_def)
  have "base64Encode (a # b # c # rest) =
      base64Char x # base64Char y # base64Char z # base64Char w # base64Encode rest"
    by (simp add: x_def y_def z_def w_def)
  then show ?case using base64Decode_group [OF bd, of "base64Encode rest"] ih i by simp
qed

lemma btoa_binaryString:
  assumes "binaryString s b"
  shows "btoa b = Inr (base64Encode (map unat b))"
    and "decodePayload (base64Encode (map unat b)) = Some s"
proof -
  have bytes: "list_all (\<lambda>c. unat c < 256) b" and dec: "utf8Decode (map unat b) = Some s"
    using assms by (simp_all add: binaryString_def)
  have "\<not> list_ex (\<lambda>c. 0xFF < unat c) b"
    using bytes by (induction b) auto
  then show "btoa b = Inr (base64Encode (map unat b))" by (simp add: btoa_def)
  have "list_all (\<lambda>n. n < 256) (map unat b)" using bytes by (induction b) auto
  then have "base64Decode (base64Encode (map unat b)) = Some (map unat b)"
    by (rule base64Decode_base64Encode)
  then show "decodePayload (base64Encode (map unat b)) = Some s"
    using dec by (simp add: decodePayload_def)
qed

lemma encodingFails_iff: "encodingFails s \<longleftrightarrow> \<not> isWellFormed s"
proof (cases "encodeURIComponent s")
  case (Inl x)
  then show ?thesis using encodeURIComponent_throws [of s] by (simp add: encodingFails_def)
next
  case (Inr e)
  have "btoa (unescape e) = Inr (base64Encode (map unat (unescape e)))"
    using unescape_encodeURIComponent [OF Inr] by (rule btoa_binaryString(1))
  then show ?thesis using Inr encodeURIComponent_throws [of s] by (simp add: encodingFails_def)
qed

text \<open>
  Claim C9. The data URL is a value for every colourised text (the function returns a
  string; every throw of \<open>encodeURIComponent\<close> and \<open>btoa\<close> is caught). It is the empty
  string when the text is empty or the encoding fails. Otherwise it is
  \<open>data:image/svg+xml;base64,\<close> followed by a payload, and the payload, decoded as Base64
  and then as UTF-8, is the colourised text. The encoding fails exactly when the text has a
  surrogate without its partner.
\<close>

theorem svgPreviewUrl_empty_or_decodes:
  "(s = [] \<or> encodingFails s \<longrightarrow> svgPreviewUrl s = [])
   \<and> (s \<noteq> [] \<and> \<not> encodingFails s \<longrightarrow>
        (\<exists>payload. svgPreviewUrl s = str ''data:image/svg+xml;base64,'' @ payload
                  \<and> decodePayload payload = Some s))
   \<and> (encodingFails s \<longleftrightarrow> \<not> isWellFormed s)"
proof (intro conjI impI)
  show "svgPreviewUrl s = []" if "s = [] \<or> encodingFails s"
    using that by (auto simp: svgPreviewUrl_def encodingFails_def split: sum.splits)
  show "\<exists>payload. svgPreviewUrl s = str ''data:image/svg+xml;base64,'' @ payload
                  \<and> decodePayload payload = Some s"
    if h: "s \<noteq> [] \<and> \<not> encodingFails s"
  proof -
    obtain e where e: "encodeURIComponent s = Inr e"
      using h by (cases "encodeURIComponent s") (auto simp: encodingFails_def)
    have b: "binaryString s (unescape e)" using e by (rule unescape_encodeURIComponent)
    have "svgPreviewUrl s = str ''data:image/svg+xml;base64,'' @ base64Encode (map unat (unescape e))"
      using h e btoa_binaryString(1) [OF b] by (simp add: svgPreviewUrl_def)
    then show ?thesis using btoa_binaryString(2) [OF b] by blast
  qed
  show "encodingFails s \<longleftrightarrow> \<not> isWellFormed s" by (rule encodingFails_iff)
qed

theorem svgPreviewUrl_empty_or_decodes_witness:
  "svgPreviewUrl [] = []
   \<and> encodingFails [0xD83D] \<and> svgPreviewUrl [0xD83D] = []
   \<and> (\<exists>payload. svgPreviewUrl (str ''<svg/>'') = str ''data:image/svg+xml;base64,'' @ payload
                \<and> decodePayload payload = Some (str ''<svg/>''))
   \<and> svgPreviewUrl (str ''<svg/>'') = str ''data:image/svg+xml;base64,PHN2Zy8+''"
proof -
  have f: "encodingFails [0xD83D]"
    by (simp add: encodingFails_def uriUnescaped_def isLeadingSurrogate_def)
  have n: "\<not> encodingFails (str ''<svg/>'')"
    using svgPreviewUrl_empty_or_decodes [of "str ''<svg/>''"]
    by (simp add: str_def isLeadingSurrogate_def isTrailingSurrogate_def)
  have u: "svgPreviewUrl (str ''<svg/>'') = str ''data:image/svg+xml;base64,PHN2Zy8+''"
    by (simp add: svgPreviewUrl_def str_def uriUnescaped_def isLeadingSurrogate_def
        isTrailingSurrogate_def followedBy_def percentEncode_def utf8Octets_def hexChar_def
        hexValue_def btoa_def base64Char_def)
  show ?thesis
    using svgPreviewUrl_empty_or_decodes [of "[]"] svgPreviewUrl_empty_or_decodes [of "[0xD83D]"]
      svgPreviewUrl_empty_or_decodes [of "str ''<svg/>''"] f n u
    by (simp add: str_def)
qed

end
